theory Spec2Isabelle
  imports Complex_Main "HOL-Library.Word" "HOL-Library.Signed_Division" "HOL-Library.Log_Nat"
begin

section \<open>The binary search tree of bstree.go\<close>

text \<open>
  A shallow embedding of package bstree. The Go code keeps the tree in heap nodes that
  are linked by pointers and mutated in place. Every node is created by \<open>new_Node\<close>
  inside \<open>Insert\<close> and is stored in exactly one place (the root field or one child
  field), so no two pointers alias and the heap below a pointer is a value: a pointer
  \<open>*_Node\<close> is an \<open>option\<close> (\<open>None\<close> is \<open>nil\<close>), and a function that writes
  to a node returns the node as it is after the call.

  Go's \<open>int\<close> is modelled by \<open>int\<close>, which is exact for every call that returns.
  The counters of the package (\<open>size\<close>, the result of \<open>doDepth\<close>) count nodes
  that are live on the heap, and a node takes at least 16 bytes, so they stay below the
  largest \<open>int\<close> of the platform. The sum \<open>begin + end\<close> in \<open>doCompleteTree\<close>
  is at most twice \<open>count\<close>, and \<open>CompleteTree(count)\<close> returns only when
  \<open>count\<close> nodes are on the heap, which is fewer than half the largest \<open>int\<close>;
  a call with a larger \<open>count\<close> runs out of memory and returns nothing.

  The model is the sequential behaviour of each method. The field \<open>mutex\<close> is left
  out: every method that takes the lock releases it when it returns (\<open>defer\<close>), so
  between two calls the lock is free.
\<close>

subsection \<open>Ordering predicates\<close>

type_synonym 'a Smaller = "'a \<Rightarrow> 'a \<Rightarrow> bool"
type_synonym 'a Larger = "'a \<Rightarrow> 'a \<Rightarrow> bool"

definition IntSmaller :: "int Smaller" where
  "IntSmaller v other = (v < other)"

definition IntLarger :: "int Larger" where
  "IntLarger v other = (v > other)"

subsection \<open>Nodes and trees\<close>

text \<open>
  The field \<open>value\<close> of a node is \<open>val\<close> and the field \<open>size\<close> of a tree is
  \<open>size'\<close>: Isabelle has taken the names.
\<close>

datatype 'a Node = Node (val: 'a) (left: "'a Node option") (right: "'a Node option")

definition new_Node :: "'a \<Rightarrow> 'a Node" where
  "new_Node v = Node v None None"

record 'a Tree =
  root :: "'a Node option"
  smaller :: "'a Smaller"
  larger :: "'a Larger"
  size' :: int

definition New :: "'a Smaller \<Rightarrow> 'a Larger \<Rightarrow> 'a Tree" where
  "New sm lg = \<lparr>root = None, smaller = sm, larger = lg, size' = 0\<rparr>"

text \<open>
  A method with the receiver \<open>tree *Tree\<close> returns its result together with the tree
  after the call.
\<close>

definition Size :: "'a Tree \<Rightarrow> int \<times> 'a Tree" where
  "Size tree = (size' tree, tree)"

subsection \<open>Traversal\<close>

text \<open>
  \<open>Traversal\<close> is an \<open>int32\<close>; the constants are numbered by \<open>iota\<close> from the
  blank identifier, which takes 0. A visitor is a function with side effects: it is a
  transformer of a state \<open>'s\<close> of its own.
\<close>

type_synonym Traversal = "32 word"
type_synonym ('a, 's) Visitor = "'a \<Rightarrow> 's \<Rightarrow> 's"

definition PreOrder :: Traversal where "PreOrder = 1"
definition InOrder :: Traversal where "InOrder = 2"
definition PostOrder :: Traversal where "PostOrder = 3"
definition LevelOrder :: Traversal where "LevelOrder = 4"

fun doPreOrder :: "'a Tree \<Rightarrow> 'a Node option \<Rightarrow> ('a, 's) Visitor \<Rightarrow> 's \<Rightarrow> 's" where
  "doPreOrder tree None visitor s = s"
| "doPreOrder tree (Some (Node v l r)) visitor s =
     doPreOrder tree r visitor (doPreOrder tree l visitor (visitor v s))"

fun doInOrder :: "'a Tree \<Rightarrow> 'a Node option \<Rightarrow> ('a, 's) Visitor \<Rightarrow> 's \<Rightarrow> 's" where
  "doInOrder tree None visitor s = s"
| "doInOrder tree (Some (Node v l r)) visitor s =
     doInOrder tree r visitor (visitor v (doInOrder tree l visitor s))"

fun doPostOrder :: "'a Tree \<Rightarrow> 'a Node option \<Rightarrow> ('a, 's) Visitor \<Rightarrow> 's \<Rightarrow> 's" where
  "doPostOrder tree None visitor s = s"
| "doPostOrder tree (Some (Node v l r)) visitor s =
     visitor v (doPostOrder tree r visitor (doPostOrder tree l visitor s))"

text \<open>
  The loop of \<open>doLevelOrder\<close>. The queue holds the pointers given to \<open>PushBack\<close>;
  each of them has passed a test \<open>!= nil\<close>, so the queue is a list of nodes.
\<close>

function doLevelOrder_loop :: "('a, 's) Visitor \<Rightarrow> 'a Node list \<Rightarrow> 's \<Rightarrow> 's" where
  "doLevelOrder_loop visitor [] s = s"
| "doLevelOrder_loop visitor (node # queue) s =
     (let s1 = visitor (val node) s;
          queue1 = (case left node of None \<Rightarrow> queue | Some l \<Rightarrow> queue @ [l]);
          queue2 = (case right node of None \<Rightarrow> queue1 | Some r \<Rightarrow> queue1 @ [r])
      in doLevelOrder_loop visitor queue2 s1)"
  by pat_completeness auto
termination
proof (relation "measure (\<lambda>(visitor, queue, s). sum_list (map size queue))")
  show "wf (measure (\<lambda>(visitor :: ('a, 's) Visitor, queue :: 'a Node list, s :: 's).
              sum_list (map size queue)))"
    by simp
next
  fix visitor :: "('a, 's) Visitor" and node :: "'a Node" and queue queue1 queue2
    and s s1 :: 's
  assume "queue1 = (case left node of None \<Rightarrow> queue | Some l \<Rightarrow> queue @ [l])"
    and "queue2 = (case right node of None \<Rightarrow> queue1 | Some r \<Rightarrow> queue1 @ [r])"
  then show "((visitor, queue2, s1), (visitor, node # queue, s))
      \<in> measure (\<lambda>(visitor, queue, s). sum_list (map size queue))"
    by (cases node) (auto split: option.splits)
qed

definition doLevelOrder :: "'a Tree \<Rightarrow> ('a, 's) Visitor \<Rightarrow> 's \<Rightarrow> 's" where
  "doLevelOrder tree visitor s =
     (case root tree of None \<Rightarrow> s | Some r \<Rightarrow> doLevelOrder_loop visitor [r] s)"

definition Traverse :: "Traversal \<Rightarrow> ('a, 's) Visitor \<Rightarrow> 'a Tree \<Rightarrow> 's \<Rightarrow> 's \<times> 'a Tree" where
  "Traverse traversal visitor tree s =
     (if traversal = PreOrder then (doPreOrder tree (root tree) visitor s, tree)
      else if traversal = InOrder then (doInOrder tree (root tree) visitor s, tree)
      else if traversal = PostOrder then (doPostOrder tree (root tree) visitor s, tree)
      else if traversal = LevelOrder then (doLevelOrder tree visitor s, tree)
      else (s, tree))"

text \<open>
  The visitor of the example tests prints each value; \<open>visits\<close> is the sequence of
  values a traversal hands to such a recording visitor.
\<close>

definition record_visit :: "('a, 'a list) Visitor" where
  "record_visit v seen = seen @ [v]"

definition visits :: "Traversal \<Rightarrow> 'a Tree \<Rightarrow> 'a list" where
  "visits traversal tree = fst (Traverse traversal record_visit tree [])"

subsection \<open>Lookup and insertion\<close>

fun doExists :: "'a Tree \<Rightarrow> 'a Node option \<Rightarrow> 'a \<Rightarrow> bool" where
  "doExists tree None value = False"
| "doExists tree (Some (Node a l r)) value =
     (if smaller tree value a then doExists tree l value
      else if larger tree value a then doExists tree r value
      else True)"

definition Exists :: "'a \<Rightarrow> 'a Tree \<Rightarrow> bool \<times> 'a Tree" where
  "Exists value tree = (doExists tree (root tree) value, tree)"

fun doInsert :: "'a Tree \<Rightarrow> 'a Node option \<Rightarrow> 'a \<Rightarrow> bool \<times> 'a Node option" where
  "doInsert tree None value = (False, None)"
| "doInsert tree (Some (Node a l r)) value =
     (if smaller tree value a then
        (if l = None then (True, Some (Node a (Some (new_Node value)) r))
         else (let (b, l') = doInsert tree l value in (b, Some (Node a l' r))))
      else if larger tree value a then
        (if r = None then (True, Some (Node a l (Some (new_Node value))))
         else (let (b, r') = doInsert tree r value in (b, Some (Node a l r'))))
      else (False, Some (Node a l r)))"

definition Insert :: "'a \<Rightarrow> 'a Tree \<Rightarrow> bool \<times> 'a Tree" where
  "Insert value tree =
     (if root tree = None then
        (True, tree\<lparr>root := Some (new_Node value), size' := size' tree + 1\<rparr>)
      else (let (b, r') = doInsert tree (root tree) value
            in if b then (True, tree\<lparr>root := r', size' := size' tree + 1\<rparr>)
               else (False, tree\<lparr>root := r'\<rparr>)))"

subsection \<open>Minimum, maximum and depth\<close>

fun Minimum_loop :: "'a Node \<Rightarrow> 'a Node" where
  "Minimum_loop (Node a None r) = Node a None r"
| "Minimum_loop (Node a (Some l) r) = Minimum_loop l"

fun Maximum_loop :: "'a Node \<Rightarrow> 'a Node" where
  "Maximum_loop (Node a l None) = Node a l None"
| "Maximum_loop (Node a l (Some r)) = Maximum_loop r"

text \<open>
  Go returns the \<open>nil\<close> interface for the empty tree and the stored value otherwise;
  the result is an \<open>option\<close>.
\<close>

definition Minimum :: "'a Tree \<Rightarrow> 'a option \<times> 'a Tree" where
  "Minimum tree =
     (case root tree of
        None \<Rightarrow> (None, tree)
      | Some node \<Rightarrow> (Some (val (Minimum_loop node)), tree))"

definition Maximum :: "'a Tree \<Rightarrow> 'a option \<times> 'a Tree" where
  "Maximum tree =
     (case root tree of
        None \<Rightarrow> (None, tree)
      | Some node \<Rightarrow> (Some (val (Maximum_loop node)), tree))"

fun doDepth :: "'a Tree \<Rightarrow> 'a Node option \<Rightarrow> int" where
  "doDepth tree None = 0"
| "doDepth tree (Some (Node a l r)) =
     (let lt = doDepth tree l; rt = doDepth tree r
      in if lt > rt then lt + 1 else rt + 1)"

definition Depth :: "'a Tree \<Rightarrow> int \<times> 'a Tree" where
  "Depth tree = (doDepth tree (root tree), tree)"

subsection \<open>The tree builders of the tests\<close>

definition EmptyTree :: "int Tree" where
  "EmptyTree = New IntSmaller IntLarger"

text \<open>
  Go's \<open>/\<close> on \<open>int\<close> truncates towards zero: it is \<open>sdiv\<close>.
\<close>

function doCompleteTree :: "int Tree \<Rightarrow> int \<Rightarrow> int \<Rightarrow> int Tree" where
  "doCompleteTree tree begin end =
     (if begin > end then tree
      else if begin \<le> end then
        (let mid = (begin + end) sdiv 2;
             tree1 = snd (Insert mid tree);
             tree2 = doCompleteTree tree1 begin (mid - 1)
         in doCompleteTree tree2 (mid + 1) end)
      else tree)"
  by pat_completeness auto
termination
  by (relation "measure (\<lambda>(tree, begin, end). nat (end - begin + 1))")
     (auto simp: signed_divide_int_def sgn_if)

definition CompleteTree :: "int \<Rightarrow> int Tree" where
  "CompleteTree count = doCompleteTree EmptyTree 1 count"

subsection \<open>Sequences of calls\<close>

text \<open>
  \<open>Insert_seq vs t\<close> calls \<open>Insert\<close> with each value of \<open>vs\<close> in turn, starting
  from \<open>t\<close>, and returns the results of the calls and the final tree.
\<close>

fun Insert_seq :: "'a list \<Rightarrow> 'a Tree \<Rightarrow> bool list \<times> 'a Tree" where
  "Insert_seq [] t = ([], t)"
| "Insert_seq (v # vs) t =
     (let (b, t1) = Insert v t; (bs, t2) = Insert_seq vs t1 in (b # bs, t2))"

definition built :: "'a Smaller \<Rightarrow> 'a Larger \<Rightarrow> 'a list \<Rightarrow> 'a Tree" where
  "built sm lg vs = snd (Insert_seq vs (New sm lg))"

subsection \<open>Notions used to state the properties\<close>

text \<open>
  The values below a pointer, from left to right, and the number of nodes that can be
  reached from it through \<open>left\<close> and \<open>right\<close>.
\<close>

fun inorder :: "'a Node option \<Rightarrow> 'a list" where
  "inorder None = []"
| "inorder (Some (Node a l r)) = inorder l @ a # inorder r"

fun count_nodes :: "'a Node option \<Rightarrow> nat" where
  "count_nodes None = 0"
| "count_nodes (Some (Node a l r)) = 1 + count_nodes l + count_nodes r"

text \<open>
  A consistent strict ordering: \<open>sm\<close> is irreflexive and transitive, and \<open>lg\<close>
  is its converse.
\<close>

definition strict_ordering :: "'a Smaller \<Rightarrow> 'a Larger \<Rightarrow> bool" where
  "strict_ordering sm lg \<longleftrightarrow>
     (\<forall>a. \<not> sm a a) \<and> (\<forall>a b c. sm a b \<longrightarrow> sm b c \<longrightarrow> sm a c) \<and> (\<forall>a b. lg a b = sm b a)"

text \<open>
  Insertion as the specification words it: descend left where \<open>sm v a\<close>, right
  where that fails and \<open>lg v a\<close>; a missing child slot takes a new node; a node that is
  neither smaller nor larger rejects the value (\<open>None\<close>). The result is the pointer
  in the slot after the insertion.
\<close>

fun spec_insert :: "'a Smaller \<Rightarrow> 'a Larger \<Rightarrow> 'a \<Rightarrow> 'a Node option \<Rightarrow> 'a Node option option" where
  "spec_insert sm lg v None = Some (Some (Node v None None))"
| "spec_insert sm lg v (Some (Node a l r)) =
     (if sm v a then map_option (\<lambda>l'. Some (Node a l' r)) (spec_insert sm lg v l)
      else if lg v a then map_option (\<lambda>r'. Some (Node a l r')) (spec_insert sm lg v r)
      else None)"

text \<open>
  The descent of a lookup as the specification words it: the values of the nodes it
  passes, from the root on; it ends at a missing child or at a node that is neither
  smaller nor larger than the target.
\<close>

fun descent :: "'a Smaller \<Rightarrow> 'a Larger \<Rightarrow> 'a \<Rightarrow> 'a Node option \<Rightarrow> 'a list" where
  "descent sm lg v None = []"
| "descent sm lg v (Some (Node a l r)) =
     a # (if sm v a then descent sm lg v l
          else if lg v a then descent sm lg v r
          else [])"

text \<open>
  The pointer in a slot after a call of \<open>Insert\<close> has passed through it, and the
  values \<open>doCompleteTree\<close> inserts, in the order of its calls of \<open>Insert\<close>.
\<close>

fun ins :: "'a Smaller \<Rightarrow> 'a Larger \<Rightarrow> 'a \<Rightarrow> 'a Node option \<Rightarrow> 'a Node option" where
  "ins sm lg v None = Some (Node v None None)"
| "ins sm lg v (Some (Node a l r)) =
     (if sm v a then Some (Node a (ins sm lg v l) r)
      else if lg v a then Some (Node a l (ins sm lg v r))
      else Some (Node a l r))"

function complete_seq :: "int \<Rightarrow> int \<Rightarrow> int list" where
  "complete_seq b e =
     (if b > e then []
      else (let mid = (b + e) sdiv 2
            in mid # complete_seq b (mid - 1) @ complete_seq (mid + 1) e))"
  by pat_completeness auto
termination
  by (relation "measure (\<lambda>(b, e). nat (e - b + 1))")
     (auto simp: signed_divide_int_def sgn_if)

section \<open>Properties\<close>

subsection \<open>Traversals apply the visitor to a list of values\<close>

lemma doInOrder_fold: "doInOrder t n visitor s = fold visitor (inorder n) s"
  by (induction n arbitrary: s rule: inorder.induct) simp_all

lemma fold_record_visit: "fold record_visit xs seen = seen @ xs"
  by (induction xs arbitrary: seen) (simp_all add: record_visit_def)

lemma InOrder_neq_PreOrder: "InOrder \<noteq> PreOrder"
  by (simp add: InOrder_def PreOrder_def)

lemma visits_InOrder: "visits InOrder t = inorder (root t)"
  by (simp add: visits_def Traverse_def InOrder_neq_PreOrder doInOrder_fold fold_record_visit)

lemma Traverse_InOrder_fold:
  "fst (Traverse InOrder visitor t s) = fold visitor (inorder (root t)) s"
  by (simp add: Traverse_def InOrder_neq_PreOrder doInOrder_fold)

lemma inorder_Some_ne: "inorder (Some n) \<noteq> []"
  by (cases n) simp

subsection \<open>What a call of Insert does\<close>

lemma length_inorder: "length (inorder n) = count_nodes n"
  by (induction n rule: inorder.induct) simp_all

lemma doInsert_spec:
  "n \<noteq> None \<Longrightarrow> doInsert t n v =
     (case spec_insert (smaller t) (larger t) v n of
        None \<Rightarrow> (False, n) | Some n' \<Rightarrow> (True, n'))"
  by (induction t n v rule: doInsert.induct)
     (auto simp: new_Node_def split: option.splits prod.splits)

lemma Insert_spec:
  "Insert v t =
     (case spec_insert (smaller t) (larger t) v (root t) of
        None \<Rightarrow> (False, t)
      | Some r' \<Rightarrow> (True, t\<lparr>root := r', size' := size' t + 1\<rparr>))"
  by (cases "root t") (auto simp: Insert_def doInsert_spec new_Node_def split: option.splits)

lemma spec_insert_descent:
  "(spec_insert sm lg v n = None) = (\<exists>a\<in>set (descent sm lg v n). \<not> sm v a \<and> \<not> lg v a)"
  by (induction sm lg v n rule: spec_insert.induct) auto

lemma doExists_descent:
  "doExists t n v = (\<exists>a\<in>set (descent (smaller t) (larger t) v n). \<not> smaller t v a \<and> \<not> larger t v a)"
  by (induction t n v rule: doExists.induct) auto

lemma set_descent_sub: "set (descent sm lg v n) \<subseteq> set (inorder n)"
  by (induction sm lg v n rule: descent.induct) auto

lemma Insert_True_iff:
  "fst (Insert v t) =
     (\<not> (\<exists>a\<in>set (descent (smaller t) (larger t) v (root t)).
           \<not> smaller t v a \<and> \<not> larger t v a))"
  using spec_insert_descent[of "smaller t" "larger t" v "root t"]
  by (cases "spec_insert (smaller t) (larger t) v (root t)") (simp_all add: Insert_spec)

lemma doInsert_ins:
  "n \<noteq> None \<Longrightarrow> snd (doInsert t n v) = ins (smaller t) (larger t) v n"
  by (induction t n v rule: doInsert.induct)
     (auto simp: new_Node_def split: option.splits prod.splits)

lemma root_Insert: "root (snd (Insert v t)) = ins (smaller t) (larger t) v (root t)"
  using doInsert_ins[of "root t" t v]
  by (cases "root t") (auto simp: Insert_def new_Node_def split: prod.splits)

lemma smaller_Insert: "smaller (snd (Insert v t)) = smaller t"
  by (auto simp: Insert_def split: prod.splits)

lemma larger_Insert: "larger (snd (Insert v t)) = larger t"
  by (auto simp: Insert_def split: prod.splits)

lemma doInsert_count:
  "n \<noteq> None \<Longrightarrow> doInsert t n v = (b, n') \<Longrightarrow>
     count_nodes n' = count_nodes n + (if b then 1 else 0)"
  by (induction t n v arbitrary: b n' rule: doInsert.induct)
     (auto simp: new_Node_def split: option.splits prod.splits if_splits)

lemma Insert_count:
  "Insert v t = (b, t') \<Longrightarrow>
     count_nodes (root t') = count_nodes (root t) + (if b then 1 else 0) \<and>
     size' t' = size' t + (if b then 1 else 0)"
  by (cases "root t")
    (auto simp: Insert_def new_Node_def split: prod.splits if_splits dest: doInsert_count[rotated])

subsection \<open>Sequences of calls of Insert\<close>

lemma Insert_seq_Cons: "snd (Insert_seq (v # vs) t) = snd (Insert_seq vs (snd (Insert v t)))"
  by (simp split: prod.splits)

lemma smaller_Insert_seq: "smaller (snd (Insert_seq vs t)) = smaller t"
  by (induction vs arbitrary: t)
     (simp_all add: Insert_seq_Cons smaller_Insert del: Insert_seq.simps(2))

lemma larger_Insert_seq: "larger (snd (Insert_seq vs t)) = larger t"
  by (induction vs arbitrary: t)
     (simp_all add: Insert_seq_Cons larger_Insert del: Insert_seq.simps(2))

lemma root_Insert_seq:
  "root (snd (Insert_seq vs t)) = fold (ins (smaller t) (larger t)) vs (root t)"
proof (induction vs arbitrary: t)
  case Nil
  show ?case by simp
next
  case (Cons v vs)
  show ?case
    unfolding Insert_seq_Cons Cons.IH
    by (simp add: root_Insert smaller_Insert larger_Insert)
qed

lemma root_built: "root (built sm lg vs) = fold (ins sm lg) vs None"
  by (simp add: built_def root_Insert_seq New_def)

lemma Insert_seq_count:
  "Insert_seq vs t = (bs, t') \<Longrightarrow>
     count_nodes (root t') = count_nodes (root t) + length (filter (\<lambda>b. b) bs) \<and>
     size' t' = size' t + int (length (filter (\<lambda>b. b) bs))"
proof (induction vs arbitrary: t bs t')
  case Nil
  then show ?case by simp
next
  case (Cons v vs)
  obtain b t1 where i: "Insert v t = (b, t1)" by (cases "Insert v t")
  obtain bs1 t2 where s: "Insert_seq vs t1 = (bs1, t2)" by (cases "Insert_seq vs t1")
  from Cons.prems i s have e: "bs = b # bs1" "t' = t2" by simp_all
  from Insert_count[OF i] Cons.IH[OF s] e show ?case by simp
qed

subsection \<open>The in-order sequence stays sorted\<close>

lemma size_built: "size' (built sm lg vs) = int (count_nodes (root (built sm lg vs)))"
proof -
  obtain bs t' where r: "Insert_seq vs (New sm lg) = (bs, t')" by (cases "Insert_seq vs (New sm lg)")
  from Insert_seq_count[OF r] r show ?thesis by (simp add: built_def New_def)
qed

lemma set_inorder_ins_sub: "set (inorder (ins sm lg v n)) \<subseteq> insert v (set (inorder n))"
  by (induction sm lg v n rule: ins.induct) auto

lemma set_inorder_ins_sup: "set (inorder n) \<subseteq> set (inorder (ins sm lg v n))"
  by (induction sm lg v n rule: ins.induct) auto

lemma sorted_ins:
  "strict_ordering sm lg \<Longrightarrow> sorted_wrt sm (inorder n) \<Longrightarrow>
     sorted_wrt sm (inorder (ins sm lg v n))"
proof (induction sm lg v n rule: ins.induct)
  case (1 sm lg v)
  then show ?case by simp
next
  case (2 sm lg v a l r)
  have tr: "\<And>x y z. sm x y \<Longrightarrow> sm y z \<Longrightarrow> sm x z"
    and cv: "\<And>x y. lg x y = sm y x"
    using "2.prems"(1) unfolding strict_ordering_def by blast+
  from "2.prems"(2) have sl: "sorted_wrt sm (inorder l)" and sr: "sorted_wrt sm (inorder r)"
    and la: "\<And>x. x \<in> set (inorder l) \<Longrightarrow> sm x a"
    and ar: "\<And>y. y \<in> set (inorder r) \<Longrightarrow> sm a y"
    and lr: "\<And>x y. x \<in> set (inorder l) \<Longrightarrow> y \<in> set (inorder r) \<Longrightarrow> sm x y"
    by (auto simp: sorted_wrt_append)
  show ?case
  proof (cases "sm v a")
    case True
    then have sl': "sorted_wrt sm (inorder (ins sm lg v l))"
      using "2.IH"(1) "2.prems"(1) sl by simp
    have m: "\<And>x. x \<in> set (inorder (ins sm lg v l)) \<Longrightarrow> x = v \<or> x \<in> set (inorder l)"
      using set_inorder_ins_sub[of sm lg v l] by auto
    have "\<And>x. x \<in> set (inorder (ins sm lg v l)) \<Longrightarrow> sm x a"
      using m True la by blast
    moreover have "\<And>x y. x \<in> set (inorder (ins sm lg v l)) \<Longrightarrow> y \<in> set (inorder r) \<Longrightarrow> sm x y"
      using m True lr ar tr by blast
    ultimately show ?thesis
      using True sl' sr ar by (simp add: sorted_wrt_append)
  next
    case False
    show ?thesis
    proof (cases "lg v a")
      case True
      then have av: "sm a v" using cv by simp
      have sr': "sorted_wrt sm (inorder (ins sm lg v r))"
        using "2.IH"(2) "2.prems"(1) sr False True by simp
      have m: "\<And>y. y \<in> set (inorder (ins sm lg v r)) \<Longrightarrow> y = v \<or> y \<in> set (inorder r)"
        using set_inorder_ins_sub[of sm lg v r] by auto
      have "\<And>y. y \<in> set (inorder (ins sm lg v r)) \<Longrightarrow> sm a y"
        using m av ar by blast
      moreover have "\<And>x y. x \<in> set (inorder l) \<Longrightarrow> y \<in> set (inorder (ins sm lg v r)) \<Longrightarrow> sm x y"
        using m av lr la tr by blast
      ultimately show ?thesis
        using False True sl sr' la by (simp add: sorted_wrt_append)
    next
      case lgF: False
      with False "2.prems"(2) show ?thesis by simp
    qed
  qed
qed

lemma sorted_fold_ins:
  "strict_ordering sm lg \<Longrightarrow> sorted_wrt sm (inorder n) \<Longrightarrow>
     sorted_wrt sm (inorder (fold (ins sm lg) vs n))"
  by (induction vs arbitrary: n) (simp_all add: sorted_ins)

lemma sorted_built: "strict_ordering sm lg \<Longrightarrow> sorted_wrt sm (inorder (root (built sm lg vs)))"
  by (simp add: root_built sorted_fold_ins)

lemma strict_ordering_Int: "strict_ordering IntSmaller IntLarger"
  by (auto simp: strict_ordering_def IntSmaller_def IntLarger_def)

subsection \<open>Inserting pairwise different integers\<close>

text \<open>
  A value that is comparable with every stored value is inserted. So however the calls
  of \<open>Insert\<close> of several writers with disjoint ranges of integers are serialised,
  every call succeeds and the size is the number of calls.
\<close>

lemma Insert_fresh:
  assumes "strict_ordering (smaller t) (larger t)"
    and "\<forall>a\<in>set (inorder (root t)). smaller t v a \<or> smaller t a v"
  shows "fst (Insert v t)"
proof -
  have cv: "\<And>x y. larger t x y = smaller t y x"
    using assms(1) unfolding strict_ordering_def by blast
  show ?thesis
    unfolding Insert_True_iff using assms(2) set_descent_sub[of "smaller t" "larger t" v "root t"] cv
    by blast
qed

lemma Insert_seq_distinct:
  assumes "smaller t = IntSmaller" "larger t = IntLarger"
    and "distinct vs" "set vs \<inter> set (inorder (root t)) = {}"
  shows "fst (Insert_seq vs t) = replicate (length vs) True"
  using assms
proof (induction vs arbitrary: t)
  case Nil
  then show ?case by simp
next
  case (Cons v vs)
  obtain b t1 where i: "Insert v t = (b, t1)" by (cases "Insert v t")
  have "\<forall>a\<in>set (inorder (root t)). smaller t v a \<or> smaller t a v"
    using Cons.prems by (auto simp: IntSmaller_def)
  with Cons.prems(1,2) strict_ordering_Int have "fst (Insert v t)"
    by (intro Insert_fresh) simp_all
  with i have b: "b" by simp
  have t1: "t1 = snd (Insert v t)" using i by simp
  have "set (inorder (root t1)) \<subseteq> insert v (set (inorder (root t)))"
    unfolding t1 root_Insert by (rule set_inorder_ins_sub)
  with Cons.prems have d: "set vs \<inter> set (inorder (root t1)) = {}" by auto
  have "fst (Insert_seq vs t1) = replicate (length vs) True"
    using Cons.prems by (intro Cons.IH d) (simp_all add: t1 smaller_Insert larger_Insert)
  with i b show ?case by (auto split: prod.splits)
qed

lemma Size_distinct_inserts:
  "distinct vs \<Longrightarrow> fst (Size (snd (Insert_seq vs EmptyTree))) = int (length vs)"
proof -
  assume d: "distinct vs"
  obtain bs t' where r: "Insert_seq vs EmptyTree = (bs, t')" by (cases "Insert_seq vs EmptyTree")
  have "fst (Insert_seq vs EmptyTree) = replicate (length vs) True"
    using d by (intro Insert_seq_distinct) (simp_all add: EmptyTree_def New_def)
  with r have "bs = replicate (length vs) True" by simp
  with Insert_seq_count[OF r] r show ?thesis by (simp add: Size_def EmptyTree_def New_def)
qed

subsection \<open>Minimum and maximum are the ends of the in-order sequence\<close>

lemma Minimum_loop_hd: "val (Minimum_loop n) = hd (inorder (Some n))"
  by (induction n rule: Minimum_loop.induct) (simp_all add: inorder_Some_ne)

lemma Maximum_loop_last: "val (Maximum_loop n) = last (inorder (Some n))"
  by (induction n rule: Maximum_loop.induct) (simp_all add: inorder_Some_ne)

lemma ins_not_None: "ins sm lg v n \<noteq> None"
  by (induction sm lg v n rule: ins.induct) simp_all

lemma fold_ins_not_None: "n \<noteq> None \<Longrightarrow> fold (ins sm lg) vs n \<noteq> None"
proof (induction vs arbitrary: n)
  case Nil
  then show ?case by simp
next
  case (Cons v vs)
  from Cons.IH[OF ins_not_None, of sm lg v n] show ?case by simp
qed

lemma root_built_not_None: "vs \<noteq> [] \<Longrightarrow> root (built sm lg vs) \<noteq> None"
  by (cases vs) (simp_all add: root_built fold_ins_not_None ins_not_None)

lemma set_inorder_fold_ins_sub:
  "set (inorder (fold (ins sm lg) vs n)) \<subseteq> set vs \<union> set (inorder n)"
proof (induction vs arbitrary: n)
  case Nil
  show ?case by simp
next
  case (Cons v vs)
  from Cons.IH[of "ins sm lg v n"] set_inorder_ins_sub[of sm lg v n]
  show ?case by auto
qed

lemma set_inorder_fold_ins_sup:
  "set (inorder n) \<subseteq> set (inorder (fold (ins sm lg) vs n))"
proof (induction vs arbitrary: n)
  case Nil
  show ?case by simp
next
  case (Cons v vs)
  from Cons.IH[of "ins sm lg v n"] set_inorder_ins_sup[of n sm lg v]
  show ?case by auto
qed

lemma ins_covers:
  "strict_ordering sm lg \<Longrightarrow> \<exists>a\<in>set (inorder (ins sm lg v n)). \<not> sm v a \<and> \<not> sm a v"
proof (induction sm lg v n rule: ins.induct)
  case (1 sm lg v)
  then show ?case by (simp add: strict_ordering_def)
next
  case (2 sm lg v a l r)
  have cv: "\<And>x y. lg x y = sm y x"
    using "2.prems" unfolding strict_ordering_def by blast
  show ?case
  proof (cases "sm v a")
    case True
    with "2.IH"(1) "2.prems" show ?thesis by auto
  next
    case False
    show ?thesis
    proof (cases "lg v a")
      case True
      with False "2.IH"(2) "2.prems" show ?thesis by auto
    next
      case lgF: False
      with False cv show ?thesis by auto
    qed
  qed
qed

lemma fold_ins_covers:
  "strict_ordering sm lg \<Longrightarrow> x \<in> set vs \<Longrightarrow>
     \<exists>a\<in>set (inorder (fold (ins sm lg) vs n)). \<not> sm x a \<and> \<not> sm a x"
proof (induction vs arbitrary: n)
  case Nil
  then show ?case by simp
next
  case (Cons v vs)
  show ?case
  proof (cases "x = v")
    case True
    from ins_covers[OF Cons.prems(1), of v n]
    obtain a where "a \<in> set (inorder (ins sm lg v n))" "\<not> sm v a" "\<not> sm a v" by blast
    with set_inorder_fold_ins_sup[of "ins sm lg v n" sm lg vs] True show ?thesis by auto
  next
    case False
    with Cons.prems have "x \<in> set vs" by simp
    from Cons.IH[OF Cons.prems(1) this, of "ins sm lg v n"] show ?thesis by simp
  qed
qed

lemma sorted_wrt_hd: "sorted_wrt P xs \<Longrightarrow> a \<in> set xs \<Longrightarrow> a = hd xs \<or> P (hd xs) a"
  by (cases xs) auto

lemma sorted_wrt_last: "sorted_wrt P xs \<Longrightarrow> a \<in> set xs \<Longrightarrow> a = last xs \<or> P a (last xs)"
  by (induction xs) (auto split: if_splits)

lemma Minimum_hd: "root t \<noteq> None \<Longrightarrow> fst (Minimum t) = Some (hd (inorder (root t)))"
  by (auto simp: Minimum_def Minimum_loop_hd)

lemma Maximum_last: "root t \<noteq> None \<Longrightarrow> fst (Maximum t) = Some (last (inorder (root t)))"
  by (auto simp: Maximum_def Maximum_loop_last)

lemma built_extrema:
  assumes ord: "strict_ordering sm lg" and ne: "vs \<noteq> []"
  defines "xs \<equiv> inorder (root (built sm lg vs))"
  shows "fst (Minimum (built sm lg vs)) = Some (hd xs)"
    and "fst (Maximum (built sm lg vs)) = Some (last xs)"
    and "hd xs \<in> set vs" and "last xs \<in> set vs"
    and "\<And>x. x \<in> set vs \<Longrightarrow> \<not> sm x (hd xs) \<and> \<not> lg x (last xs)"
proof -
  have tr: "\<And>x y z. sm x y \<Longrightarrow> sm y z \<Longrightarrow> sm x z"
    and cv: "\<And>x y. lg x y = sm y x"
    using ord unfolding strict_ordering_def by blast+
  have rn: "root (built sm lg vs) \<noteq> None" using ne by (rule root_built_not_None)
  then have xne: "xs \<noteq> []" unfolding xs_def by (auto simp: inorder_Some_ne)
  have sub: "set xs \<subseteq> set vs"
    unfolding xs_def root_built using set_inorder_fold_ins_sub[of sm lg vs None] by simp
  have srt: "sorted_wrt sm xs" unfolding xs_def using ord by (rule sorted_built)
  show "fst (Minimum (built sm lg vs)) = Some (hd xs)"
    unfolding xs_def using rn by (rule Minimum_hd)
  show "fst (Maximum (built sm lg vs)) = Some (last xs)"
    unfolding xs_def using rn by (rule Maximum_last)
  show "hd xs \<in> set vs" using xne sub by auto
  show "last xs \<in> set vs" using xne sub by auto
  fix x assume "x \<in> set vs"
  from fold_ins_covers[OF ord this, of None]
  obtain a where a: "a \<in> set xs" "\<not> sm x a" "\<not> sm a x"
    unfolding xs_def root_built by blast
  from sorted_wrt_hd[OF srt a(1)] a(2) tr have 1: "\<not> sm x (hd xs)" by blast
  from sorted_wrt_last[OF srt a(1)] a(3) tr have 2: "\<not> sm (last xs) x" by blast
  from 1 2 cv show "\<not> sm x (hd xs) \<and> \<not> lg x (last xs)" by simp
qed

subsection \<open>The complete tree of 15 values\<close>

lemma root_CompleteTree_15:
  "root (CompleteTree 15) =
     Some (Node 8
       (Some (Node 4
         (Some (Node 2 (Some (Node 1 None None)) (Some (Node 3 None None))))
         (Some (Node 6 (Some (Node 5 None None)) (Some (Node 7 None None))))))
       (Some (Node 12
         (Some (Node 10 (Some (Node 9 None None)) (Some (Node 11 None None))))
         (Some (Node 14 (Some (Node 13 None None)) (Some (Node 15 None None)))))))"
  by code_simp

lemma Traversal_distinct:
  "InOrder \<noteq> PreOrder" "PostOrder \<noteq> PreOrder" "PostOrder \<noteq> InOrder"
  "LevelOrder \<noteq> PreOrder" "LevelOrder \<noteq> InOrder" "LevelOrder \<noteq> PostOrder"
  by (simp_all add: PreOrder_def InOrder_def PostOrder_def LevelOrder_def)

subsection \<open>The shape and depth of the tree doCompleteTree builds\<close>

declare doCompleteTree.simps [simp del] complete_seq.simps [simp del]

lemma mid_bounds: "(b::int) \<le> e \<Longrightarrow> b \<le> (b + e) sdiv 2 \<and> (b + e) sdiv 2 \<le> e"
  by (auto simp: signed_divide_int_def sgn_if)

lemma sdiv2_nonneg: "(0::int) \<le> k \<Longrightarrow> k sdiv 2 = k div 2"
  by (simp add: signed_divide_int_def sgn_if)

lemma Insert_seq_append:
  "snd (Insert_seq (xs @ ys) t) = snd (Insert_seq ys (snd (Insert_seq xs t)))"
  by (induction xs arbitrary: t) (simp_all add: Insert_seq_Cons del: Insert_seq.simps(2))

lemma doCompleteTree_seq: "doCompleteTree t b e = snd (Insert_seq (complete_seq b e) t)"
proof (induction t b e rule: doCompleteTree.induct)
  case (1 t b e)
  show ?case
  proof (cases "b > e")
    case True
    then show ?thesis
      by (simp add: doCompleteTree.simps[of t b e] complete_seq.simps[of b e])
  next
    case False
    then have le: "b \<le> e" by simp
    define mid where "mid = (b + e) sdiv 2"
    define t1 where "t1 = snd (Insert mid t)"
    define t2 where "t2 = doCompleteTree t1 b (mid - 1)"
    have a: "t2 = snd (Insert_seq (complete_seq b (mid - 1)) t1)"
      unfolding t2_def using "1.IH"(1)[OF False le mid_def t1_def] .
    have b: "doCompleteTree t2 (mid + 1) e = snd (Insert_seq (complete_seq (mid + 1) e) t2)"
      using "1.IH"(2)[OF False le mid_def t1_def t2_def] .
    have "doCompleteTree t b e = doCompleteTree t2 (mid + 1) e"
      using False by (simp add: doCompleteTree.simps[of t b e] Let_def mid_def t1_def t2_def)
    also have "\<dots> = snd (Insert_seq (complete_seq (mid + 1) e) (snd (Insert_seq (complete_seq b (mid - 1)) t1)))"
      using a b by simp
    also have "\<dots> = snd (Insert_seq (mid # complete_seq b (mid - 1) @ complete_seq (mid + 1) e) t)"
      by (simp add: Insert_seq_Cons Insert_seq_append t1_def del: Insert_seq.simps(2))
    also have "mid # complete_seq b (mid - 1) @ complete_seq (mid + 1) e = complete_seq b e"
      using False by (simp add: complete_seq.simps[of b e] Let_def mid_def)
    finally show ?thesis .
  qed
qed

lemma set_complete_seq: "set (complete_seq b e) \<subseteq> {b..e}"
proof (induction b e rule: complete_seq.induct)
  case (1 b e)
  show ?case
  proof (cases "b > e")
    case True
    then show ?thesis by (simp add: complete_seq.simps[of b e])
  next
    case False
    define mid where "mid = (b + e) sdiv 2"
    from False have m: "b \<le> mid" "mid \<le> e" using mid_bounds[of b e] by (simp_all add: mid_def)
    from "1.IH"(1)[OF False mid_def] "1.IH"(2)[OF False mid_def] m False
    show ?thesis
      by (auto simp: complete_seq.simps[of b e] Let_def mid_def[symmetric])
  qed
qed

lemma fold_ins_Node:
  "fold (ins sm lg) vs (Some (Node a l r)) =
     Some (Node a (fold (ins sm lg) (filter (\<lambda>v. sm v a) vs) l)
                  (fold (ins sm lg) (filter (\<lambda>v. \<not> sm v a \<and> lg v a) vs) r))"
  by (induction vs arbitrary: l r) simp_all

lemma complete_seq_shape:
  assumes "b \<le> e"
  shows "fold (ins IntSmaller IntLarger) (complete_seq b e) None =
     Some (Node ((b + e) sdiv 2)
       (fold (ins IntSmaller IntLarger) (complete_seq b ((b + e) sdiv 2 - 1)) None)
       (fold (ins IntSmaller IntLarger) (complete_seq ((b + e) sdiv 2 + 1) e) None))"
proof -
  define mid where "mid = (b + e) sdiv 2"
  let ?L = "complete_seq b (mid - 1)" and ?R = "complete_seq (mid + 1) e"
  have L: "\<forall>v\<in>set ?L. v < mid" using set_complete_seq[of b "mid - 1"] by auto
  have R: "\<forall>v\<in>set ?R. mid < v" using set_complete_seq[of "mid + 1" e] by auto
  have f1: "filter (\<lambda>v. IntSmaller v mid) ?L = ?L" "filter (\<lambda>v. IntSmaller v mid) ?R = []"
    using L R by (auto simp: IntSmaller_def filter_empty_conv filter_id_conv)
  have f2: "filter (\<lambda>v. \<not> IntSmaller v mid \<and> IntLarger v mid) ?L = []"
    "filter (\<lambda>v. \<not> IntSmaller v mid \<and> IntLarger v mid) ?R = ?R"
    using L R by (auto simp: IntSmaller_def IntLarger_def filter_empty_conv filter_id_conv)
  have "complete_seq b e = mid # ?L @ ?R"
    using assms by (simp add: complete_seq.simps[of b e] Let_def mid_def)
  then show ?thesis
    unfolding mid_def[symmetric] by (simp add: fold_ins_Node f1 f2)
qed

lemma depth_step:
  fixes l r dl dr :: nat
  assumes "l + 1 \<le> 2 ^ dl" "2 ^ dl < 2 * (l + 1)" "r + 1 \<le> 2 ^ dr" "2 ^ dr < 2 * (r + 1)"
    and "l \<le> r" "r \<le> l + 1"
  shows "(l + r + 1) + 1 \<le> (2::nat) ^ (1 + max dl dr) \<and> (2::nat) ^ (1 + max dl dr) < 2 * ((l + r + 1) + 1)"
proof -
  define D where "D = max dl dr"
  have up: "(2::nat) ^ D < 2 * r + 2"
    using assms by (cases "dl \<le> dr") (simp_all add: D_def max_def)
  have "(2::nat) ^ dr \<le> 2 ^ D" by (simp add: D_def)
  with assms have lo: "r + 1 \<le> 2 ^ D" by linarith
  have "(2::nat) ^ D \<le> l + r + 1"
  proof (cases D)
    case 0
    with lo show ?thesis by simp
  next
    case (Suc k)
    then have "(2::nat) ^ D = 2 * 2 ^ k" by simp
    with up assms show ?thesis by presburger
  qed
  with lo assms show ?thesis unfolding D_def[symmetric] by simp
qed

lemma doDepth_max: "doDepth t (Some (Node a l r)) = 1 + max (doDepth t l) (doDepth t r)"
  by (simp add: Let_def max_def)

lemma depth_complete_seq:
  "1 \<le> b \<Longrightarrow> b \<le> e + 1 \<Longrightarrow>
     \<exists>d. doDepth t (fold (ins IntSmaller IntLarger) (complete_seq b e) None) = int d \<and>
         nat (e - b + 1) + 1 \<le> 2 ^ d \<and> (2::nat) ^ d < 2 * (nat (e - b + 1) + 1)"
proof (induction b e rule: complete_seq.induct)
  case (1 b e)
  show ?case
  proof (cases "b > e")
    case True
    with "1.prems" have "e - b + 1 = 0" by simp
    with True show ?thesis by (simp add: complete_seq.simps[of b e])
  next
    case False
    then have le: "b \<le> e" by simp
    define mid where "mid = (b + e) sdiv 2"
    have md: "mid = (b + e) div 2" using "1.prems" le by (simp add: mid_def sdiv2_nonneg)
    have m: "b \<le> mid" "mid \<le> e" using md le by simp_all
    from "1.IH"(1)[OF False mid_def] "1.prems" m
    obtain dl where dl: "doDepth t (fold (ins IntSmaller IntLarger) (complete_seq b (mid - 1)) None) = int dl"
      "nat (mid - 1 - b + 1) + 1 \<le> 2 ^ dl" "(2::nat) ^ dl < 2 * (nat (mid - 1 - b + 1) + 1)"
      by auto
    from "1.IH"(2)[OF False mid_def] "1.prems" m
    obtain dr where dr: "doDepth t (fold (ins IntSmaller IntLarger) (complete_seq (mid + 1) e) None) = int dr"
      "nat (e - (mid + 1) + 1) + 1 \<le> 2 ^ dr" "(2::nat) ^ dr < 2 * (nat (e - (mid + 1) + 1) + 1)"
      by auto
    define l where "l = nat (mid - 1 - b + 1)"
    define r where "r = nat (e - (mid + 1) + 1)"
    have lr: "l \<le> r" "r \<le> l + 1" "nat (e - b + 1) = l + r + 1"
      using md m by (simp_all add: l_def r_def) 
    have d: "doDepth t (fold (ins IntSmaller IntLarger) (complete_seq b e) None) = int (1 + max dl dr)"
      unfolding complete_seq_shape[OF le] mid_def[symmetric] doDepth_max dl(1) dr(1) by simp
    from depth_step[OF dl(2,3)[folded l_def] dr(2,3)[folded r_def] lr(1,2)] d lr(3)
    show ?thesis by (intro exI[of _ "1 + max dl dr"]) simp
  qed
qed

lemma root_CompleteTree:
  "root (CompleteTree S) = fold (ins IntSmaller IntLarger) (complete_seq 1 S) None"
  by (simp add: CompleteTree_def doCompleteTree_seq root_Insert_seq EmptyTree_def New_def)

lemma ceiling_log2_eq:
  fixes n d :: nat
  assumes "n \<le> 2 ^ d" "2 ^ d < 2 * n"
  shows "\<lceil>log 2 (real n)\<rceil> = int d"
proof -
  from assms have pos: "0 < n" by (cases n) auto
  have "ceillog2 n = d" using assms by (rule ceillog2_eqI)
  then have d: "nat \<lceil>log 2 (real n)\<rceil> = d" using pos by (simp add: ceillog2_def)
  have "0 \<le> log 2 (real n)" using pos by simp
  then have "0 \<le> \<lceil>log 2 (real n)\<rceil>" by linarith
  then have "int (nat \<lceil>log 2 (real n)\<rceil>) = \<lceil>log 2 (real n)\<rceil>" by (rule nat_0_le)
  then show ?thesis unfolding d by (rule sym)
qed

section \<open>The claims\<close>

text \<open>
  C1. For every tree built from the empty tree by a sequence of calls of \<open>Insert\<close>,
  under ordering predicates that form a consistent strict ordering, \<open>Traverse\<close> with
  \<open>InOrder\<close> applies the visitor to the stored values in ascending order: every value
  visited earlier is smaller than every value visited later (so the sequence is
  non-decreasing: no later value is smaller than, and no earlier value larger than, the
  other), the visitor is applied to exactly that sequence, and the sequence has one
  value for each node the tree counts.
\<close>

theorem InOrder_ascending:
  "strict_ordering sm lg \<Longrightarrow>
     sorted_wrt sm (visits InOrder (built sm lg vs)) \<and>
     sorted_wrt (\<lambda>x y. \<not> sm y x \<and> \<not> lg x y) (visits InOrder (built sm lg vs)) \<and>
     fst (Traverse InOrder visitor (built sm lg vs) s)
       = fold visitor (visits InOrder (built sm lg vs)) s \<and>
     int (length (visits InOrder (built sm lg vs))) = fst (Size (built sm lg vs))"
proof -
  assume ord: "strict_ordering sm lg"
  then have asym: "\<And>x y. sm x y \<Longrightarrow> \<not> sm y x \<and> \<not> lg x y"
    unfolding strict_ordering_def by blast
  have s: "sorted_wrt sm (visits InOrder (built sm lg vs))"
    using ord by (simp add: visits_InOrder sorted_built)
  from s have "sorted_wrt (\<lambda>x y. \<not> sm y x \<and> \<not> lg x y) (visits InOrder (built sm lg vs))"
    by (rule sorted_wrt_mono_rel[rotated]) (simp add: asym)
  with s show ?thesis
    by (simp add: Traverse_InOrder_fold visits_InOrder length_inorder size_built Size_def)
qed

theorem InOrder_ascending_witness:
  "strict_ordering IntSmaller IntLarger \<and>
   visits InOrder (built IntSmaller IntLarger [20, 10, 30, 10, 25]) = [10, 20, 25, 30] \<and>
   sorted_wrt IntSmaller (visits InOrder (built IntSmaller IntLarger [20, 10, 30, 10, 25]))"
proof -
  have "visits InOrder (built IntSmaller IntLarger [20, 10, 30, 10, 25]) = [10, 20, 25, 30]"
    by code_simp
  with strict_ordering_Int
    InOrder_ascending[OF strict_ordering_Int, of "[20, 10, 30, 10, 25]" record_visit "[]"]
  show ?thesis by blast
qed

text \<open>
  C2. After any sequence of calls of \<open>Insert\<close> that starts from the empty tree,
  \<open>Size\<close> is the number of calls that returned true, and it is the number of nodes
  reachable from the root; a call of \<open>Insert\<close> that returns false leaves the size as
  it was.
\<close>

theorem Size_counts_successful_inserts:
  "fst (Size (snd (Insert_seq vs (New sm lg))))
     = int (length (filter (\<lambda>b. b) (fst (Insert_seq vs (New sm lg))))) \<and>
   fst (Size (snd (Insert_seq vs (New sm lg))))
     = int (count_nodes (root (snd (Insert_seq vs (New sm lg))))) \<and>
   (\<not> fst (Insert v t) \<longrightarrow> fst (Size (snd (Insert v t))) = fst (Size t))"
proof -
  obtain bs t' where r: "Insert_seq vs (New sm lg) = (bs, t')"
    by (cases "Insert_seq vs (New sm lg)")
  have "\<not> fst (Insert v t) \<longrightarrow> fst (Size (snd (Insert v t))) = fst (Size t)"
    using Insert_count[of v t "fst (Insert v t)" "snd (Insert v t)"] by (simp add: Size_def)
  with Insert_seq_count[OF r] r show ?thesis
    by (simp add: Size_def New_def)
qed

theorem Size_counts_successful_inserts_witness:
  "\<not> fst (Insert 30 (built IntSmaller IntLarger [20, 10, 30])) \<and>
   fst (Size (snd (Insert 30 (built IntSmaller IntLarger [20, 10, 30]))))
     = fst (Size (built IntSmaller IntLarger [20, 10, 30])) \<and>
   fst (Insert_seq [20, 10, 30, 30] (New IntSmaller IntLarger)) = [True, True, True, False] \<and>
   fst (Size (snd (Insert_seq [20, 10, 30, 30] (New IntSmaller IntLarger)))) = 3"
proof -
  have h: "\<not> fst (Insert 30 (built IntSmaller IntLarger [20, 10, 30]))"
    by code_simp
  have b: "fst (Insert_seq [20, 10, 30, 30] (New IntSmaller IntLarger)) = [True, True, True, False]"
    by code_simp
  from Size_counts_successful_inserts[of "[20, 10, 30, 30]" IntSmaller IntLarger 30
      "built IntSmaller IntLarger [20, 10, 30]"] h b
  show ?thesis by simp
qed

text \<open>
  C3. \<open>Insert\<close> on the empty tree makes the value the root, increments the size and
  returns true. On any tree it does what the specification's insertion does: it descends
  left where \<open>smaller\<close> holds and right where \<open>larger\<close> holds, puts a new node in the
  first missing child slot, increments the size and returns true; when a node of the
  descent is neither smaller nor larger it returns false and the tree (structure and
  size) is unchanged.
\<close>

theorem Insert_meets_spec:
  "(root t = None \<longrightarrow>
      Insert v t = (True, t\<lparr>root := Some (Node v None None), size' := size' t + 1\<rparr>)) \<and>
   Insert v t =
     (case spec_insert (smaller t) (larger t) v (root t) of
        None \<Rightarrow> (False, t)
      | Some r' \<Rightarrow> (True, t\<lparr>root := r', size' := size' t + 1\<rparr>)) \<and>
   fst (Insert v t) =
     (\<not> (\<exists>a\<in>set (descent (smaller t) (larger t) v (root t)).
           \<not> smaller t v a \<and> \<not> larger t v a)) \<and>
   (\<not> fst (Insert v t) \<longrightarrow> snd (Insert v t) = t)"
proof -
  have 1: "root t = None \<longrightarrow>
      Insert v t = (True, t\<lparr>root := Some (Node v None None), size' := size' t + 1\<rparr>)"
    by (simp add: Insert_def new_Node_def)
  have 3: "fst (Insert v t) =
     (\<not> (\<exists>a\<in>set (descent (smaller t) (larger t) v (root t)).
           \<not> smaller t v a \<and> \<not> larger t v a))"
    by (rule Insert_True_iff)
  have 4: "\<not> fst (Insert v t) \<longrightarrow> snd (Insert v t) = t"
    by (simp add: Insert_spec split: option.splits)
  from 1 3 4 Insert_spec[of v t] show ?thesis by blast
qed

theorem Insert_meets_spec_witness:
  "root (New IntSmaller IntLarger) = None \<and>
   Insert 20 (New IntSmaller IntLarger :: int Tree)
     = (True, (New IntSmaller IntLarger)\<lparr>root := Some (Node 20 None None),
                                          size' := size' (New IntSmaller IntLarger) + 1\<rparr>) \<and>
   \<not> fst (Insert 30 (built IntSmaller IntLarger [20, 10, 30])) \<and>
   snd (Insert 30 (built IntSmaller IntLarger [20, 10, 30])) = built IntSmaller IntLarger [20, 10, 30]"
proof -
  have h: "root (New IntSmaller IntLarger) = None" by (simp add: New_def)
  have g: "\<not> fst (Insert 30 (built IntSmaller IntLarger [20, 10, 30]))" by code_simp
  from h g Insert_meets_spec[of "New IntSmaller IntLarger" 20]
    Insert_meets_spec[of "built IntSmaller IntLarger [20, 10, 30]" 30]
  show ?thesis by blast
qed

text \<open>
  C4. \<open>Exists\<close> leaves the tree as it was, and it returns true exactly when its descent
  (left where \<open>smaller\<close> holds, right where \<open>larger\<close> holds) reaches a node whose
  value is neither smaller nor larger than the target; on the empty tree it returns
  false. After inserting 20, 10 and 30 into the empty tree of integers, \<open>Exists\<close> is
  true for 20, false for 50 and true for 30, and inserting 30 again returns false.
\<close>

theorem Exists_descent:
  "snd (Exists v t) = t \<and>
   fst (Exists v t) =
     (\<exists>a\<in>set (descent (smaller t) (larger t) v (root t)).
        \<not> smaller t v a \<and> \<not> larger t v a) \<and>
   (root t = None \<longrightarrow> \<not> fst (Exists v t)) \<and>
   fst (Exists 20 (built IntSmaller IntLarger [20, 10, 30])) \<and>
   \<not> fst (Exists 50 (built IntSmaller IntLarger [20, 10, 30])) \<and>
   fst (Exists 30 (built IntSmaller IntLarger [20, 10, 30])) \<and>
   \<not> fst (Insert 30 (built IntSmaller IntLarger [20, 10, 30]))"
proof -
  have 1: "fst (Exists v t) =
     (\<exists>a\<in>set (descent (smaller t) (larger t) v (root t)).
        \<not> smaller t v a \<and> \<not> larger t v a)"
    by (simp add: Exists_def doExists_descent)
  have 2: "root t = None \<longrightarrow> \<not> fst (Exists v t)"
    by (simp add: Exists_def)
  have 3: "fst (Exists 20 (built IntSmaller IntLarger [20, 10, 30]))"
    by code_simp
  have 4: "\<not> fst (Exists 50 (built IntSmaller IntLarger [20, 10, 30]))"
    by code_simp
  have 5: "fst (Exists 30 (built IntSmaller IntLarger [20, 10, 30]))"
    by code_simp
  have 6: "\<not> fst (Insert 30 (built IntSmaller IntLarger [20, 10, 30]))"
    by code_simp
  have 0: "snd (Exists v t) = t"
    by (simp add: Exists_def)
  from 0 1 2 3 4 5 6 show ?thesis by blast
qed

theorem Exists_descent_witness:
  "root (New IntSmaller IntLarger) = None \<and> \<not> fst (Exists 20 (New IntSmaller IntLarger)) \<and>
   descent IntSmaller IntLarger 30 (root (built IntSmaller IntLarger [20, 10, 30])) = [20, 30] \<and>
   fst (Exists 30 (built IntSmaller IntLarger [20, 10, 30]))"
proof -
  have h: "root (New IntSmaller IntLarger) = None" by (simp add: New_def)
  have d: "descent IntSmaller IntLarger 30 (root (built IntSmaller IntLarger [20, 10, 30])) = [20, 30]"
    by code_simp
  from h d Exists_descent[of 20 "New IntSmaller IntLarger"]
    Exists_descent[of 30 "built IntSmaller IntLarger [20, 10, 30]"]
  show ?thesis by blast
qed

text \<open>
  C5. \<open>Minimum\<close> and \<open>Maximum\<close> return the empty result when the tree has no root.
  On the tree built by inserting a non-empty sequence of values under a consistent strict
  ordering they return inserted values \<open>m\<close> and \<open>M\<close> such that no inserted value is
  smaller than \<open>m\<close> or larger than \<open>M\<close>; when the inserted values are distinct in
  the ordering (any two different ones are comparable), \<open>m\<close> is smaller and \<open>M\<close>
  is larger than every other inserted value.
\<close>

theorem Minimum_Maximum_extrema:
  "(root t = None \<longrightarrow> fst (Minimum t) = None \<and> fst (Maximum t) = None) \<and>
   (strict_ordering sm lg \<and> vs \<noteq> [] \<longrightarrow>
      (\<exists>m M. fst (Minimum (built sm lg vs)) = Some m \<and>
             fst (Maximum (built sm lg vs)) = Some M \<and>
             m \<in> set vs \<and> M \<in> set vs \<and>
             (\<forall>x\<in>set vs. \<not> sm x m \<and> \<not> lg x M) \<and>
             ((\<forall>x\<in>set vs. \<forall>y\<in>set vs. x \<noteq> y \<longrightarrow> sm x y \<or> sm y x) \<longrightarrow>
                (\<forall>x\<in>set vs. x \<noteq> m \<longrightarrow> sm m x) \<and> (\<forall>x\<in>set vs. x \<noteq> M \<longrightarrow> lg M x))))"
proof (intro conjI impI)
  assume "root t = None"
  then show "fst (Minimum t) = None" by (simp add: Minimum_def)
next
  assume "root t = None"
  then show "fst (Maximum t) = None" by (simp add: Maximum_def)
next
  assume a: "strict_ordering sm lg \<and> vs \<noteq> []"
  then have ord: "strict_ordering sm lg" and ne: "vs \<noteq> []" by simp_all
  have cv: "\<And>x y. lg x y = sm y x"
    using ord unfolding strict_ordering_def by blast
  let ?m = "hd (inorder (root (built sm lg vs)))"
  let ?M = "last (inorder (root (built sm lg vs)))"
  note e = built_extrema[OF ord ne]
  have "(\<forall>x\<in>set vs. \<forall>y\<in>set vs. x \<noteq> y \<longrightarrow> sm x y \<or> sm y x) \<longrightarrow>
          (\<forall>x\<in>set vs. x \<noteq> ?m \<longrightarrow> sm ?m x) \<and> (\<forall>x\<in>set vs. x \<noteq> ?M \<longrightarrow> lg ?M x)"
    using e(3,4,5) cv by blast
  with e show "\<exists>m M. fst (Minimum (built sm lg vs)) = Some m \<and>
             fst (Maximum (built sm lg vs)) = Some M \<and>
             m \<in> set vs \<and> M \<in> set vs \<and>
             (\<forall>x\<in>set vs. \<not> sm x m \<and> \<not> lg x M) \<and>
             ((\<forall>x\<in>set vs. \<forall>y\<in>set vs. x \<noteq> y \<longrightarrow> sm x y \<or> sm y x) \<longrightarrow>
                (\<forall>x\<in>set vs. x \<noteq> m \<longrightarrow> sm m x) \<and> (\<forall>x\<in>set vs. x \<noteq> M \<longrightarrow> lg M x))"
    by blast
qed

theorem Minimum_Maximum_extrema_witness:
  "root (New IntSmaller IntLarger) = None \<and>
   fst (Minimum (New IntSmaller IntLarger)) = None \<and>
   fst (Maximum (New IntSmaller IntLarger)) = None \<and>
   strict_ordering IntSmaller IntLarger \<and> [20, 10, 30] \<noteq> ([] :: int list) \<and>
   (\<exists>m M. fst (Minimum (built IntSmaller IntLarger [20, 10, 30])) = Some m \<and>
          fst (Maximum (built IntSmaller IntLarger [20, 10, 30])) = Some M \<and>
          m \<in> set [20, 10, 30] \<and> M \<in> set [20, 10, 30] \<and>
          (\<forall>x\<in>set [20, 10, 30]. \<not> IntSmaller x m \<and> \<not> IntLarger x M))"
proof -
  have h: "root (New IntSmaller IntLarger) = None" by (simp add: New_def)
  have n: "[20, 10, 30] \<noteq> ([] :: int list)" by simp
  from h n strict_ordering_Int
    Minimum_Maximum_extrema[where t = "New IntSmaller IntLarger" and sm = IntSmaller
      and lg = IntLarger and vs = "[20, 10, 30]"]
  show ?thesis by blast
qed

text \<open>
  C6. For every \<open>S \<ge> 0\<close>, the tree \<open>CompleteTree S\<close> (built from 1..S by
  inserting the midpoint, then the left half, then the right half) has depth
  \<open>\<lceil>log\<^sub>2 (S + 1)\<rceil>\<close>; the empty tree has depth 0; and the depth of a missing node
  is 0, that of a node one more than the larger of the depths of its children.
\<close>

theorem Depth_CompleteTree:
  "(0 \<le> S \<longrightarrow> fst (Depth (CompleteTree S)) = \<lceil>log 2 (real_of_int (S + 1))\<rceil>) \<and>
   fst (Depth (CompleteTree 0)) = 0 \<and>
   doDepth t None = 0 \<and>
   doDepth t (Some (Node a l r)) = 1 + max (doDepth t l) (doDepth t r)"
proof (intro conjI impI)
  assume S: "0 \<le> S"
  from depth_complete_seq[of 1 S "CompleteTree S"] S
  obtain d where d: "doDepth (CompleteTree S) (root (CompleteTree S)) = int d"
    "nat S + 1 \<le> 2 ^ d" "(2::nat) ^ d < 2 * (nat S + 1)"
    by (auto simp: root_CompleteTree)
  have c: "\<lceil>log 2 (real (nat S + 1))\<rceil> = int d"
    using d(2,3) by (rule ceiling_log2_eq)
  have e: "real_of_int (S + 1) = real (nat S + 1)" using S by simp
  show "fst (Depth (CompleteTree S)) = \<lceil>log 2 (real_of_int (S + 1))\<rceil>"
    unfolding e c Depth_def fst_conv by (rule d(1))
next
  show "fst (Depth (CompleteTree 0)) = 0" by code_simp
next
  show "doDepth t None = 0" by simp
next
  show "doDepth t (Some (Node a l r)) = 1 + max (doDepth t l) (doDepth t r)"
    by (rule doDepth_max)
qed

theorem Depth_CompleteTree_witness:
  "(0::int) \<le> 15 \<and> fst (Depth (CompleteTree 15)) = \<lceil>log 2 (real_of_int (15 + 1))\<rceil> \<and>
   fst (Depth (CompleteTree 15)) = 4 \<and>
   (0::int) \<le> 5 \<and> fst (Depth (CompleteTree 5)) = \<lceil>log 2 (real_of_int (5 + 1))\<rceil> \<and>
   fst (Depth (CompleteTree 5)) = 3"
proof -
  have h: "(0::int) \<le> 15" "(0::int) \<le> 5" by simp_all
  have c: "fst (Depth (CompleteTree 15)) = 4" "fst (Depth (CompleteTree 5)) = 3" by code_simp+
  from h c Depth_CompleteTree[of 15, THEN conjunct1, rule_format, OF h(1)]
    Depth_CompleteTree[of 5, THEN conjunct1, rule_format, OF h(2)]
  show ?thesis by simp
qed

text \<open>
  C7. On the tree built from 1..15 by \<open>CompleteTree\<close>, \<open>Traverse\<close> applies any
  visitor to the values in these orders: \<open>PreOrder\<close> 8,4,2,1,3,6,5,7,12,10,9,11,14,13,15;
  \<open>InOrder\<close> 1..15 ascending; \<open>PostOrder\<close> 1,3,2,5,7,6,4,9,11,10,13,15,14,12,8;
  \<open>LevelOrder\<close> 8,4,12,2,6,10,14,1,3,5,7,9,11,13,15. These are the sequences a
  recording visitor collects.
\<close>

theorem Traverse_CompleteTree_15:
  "fst (Traverse PreOrder visitor (CompleteTree 15) s)
     = fold visitor [8, 4, 2, 1, 3, 6, 5, 7, 12, 10, 9, 11, 14, 13, 15] s \<and>
   fst (Traverse InOrder visitor (CompleteTree 15) s)
     = fold visitor [1, 2, 3, 4, 5, 6, 7, 8, 9, 10, 11, 12, 13, 14, 15] s \<and>
   fst (Traverse PostOrder visitor (CompleteTree 15) s)
     = fold visitor [1, 3, 2, 5, 7, 6, 4, 9, 11, 10, 13, 15, 14, 12, 8] s \<and>
   fst (Traverse LevelOrder visitor (CompleteTree 15) s)
     = fold visitor [8, 4, 12, 2, 6, 10, 14, 1, 3, 5, 7, 9, 11, 13, 15] s \<and>
   visits PreOrder (CompleteTree 15) = [8, 4, 2, 1, 3, 6, 5, 7, 12, 10, 9, 11, 14, 13, 15] \<and>
   visits InOrder (CompleteTree 15) = [1, 2, 3, 4, 5, 6, 7, 8, 9, 10, 11, 12, 13, 14, 15] \<and>
   visits PostOrder (CompleteTree 15) = [1, 3, 2, 5, 7, 6, 4, 9, 11, 10, 13, 15, 14, 12, 8] \<and>
   visits LevelOrder (CompleteTree 15) = [8, 4, 12, 2, 6, 10, 14, 1, 3, 5, 7, 9, 11, 13, 15]"
proof -
  have pre: "\<And>(visitor :: (int, 'b) Visitor) s. fst (Traverse PreOrder visitor (CompleteTree 15) s)
     = fold visitor [8, 4, 2, 1, 3, 6, 5, 7, 12, 10, 9, 11, 14, 13, 15] s"
    by (simp add: Traverse_def root_CompleteTree_15)
  have ino: "\<And>(visitor :: (int, 'b) Visitor) s. fst (Traverse InOrder visitor (CompleteTree 15) s)
     = fold visitor [1, 2, 3, 4, 5, 6, 7, 8, 9, 10, 11, 12, 13, 14, 15] s"
    by (simp add: Traverse_def root_CompleteTree_15 Traversal_distinct)
  have post: "\<And>(visitor :: (int, 'b) Visitor) s. fst (Traverse PostOrder visitor (CompleteTree 15) s)
     = fold visitor [1, 3, 2, 5, 7, 6, 4, 9, 11, 10, 13, 15, 14, 12, 8] s"
    by (simp add: Traverse_def root_CompleteTree_15 Traversal_distinct)
  have level: "\<And>(visitor :: (int, 'b) Visitor) s. fst (Traverse LevelOrder visitor (CompleteTree 15) s)
     = fold visitor [8, 4, 12, 2, 6, 10, 14, 1, 3, 5, 7, 9, 11, 13, 15] s"
    by (simp add: Traverse_def root_CompleteTree_15 Traversal_distinct doLevelOrder_def)
  have v1: "visits PreOrder (CompleteTree 15) = [8, 4, 2, 1, 3, 6, 5, 7, 12, 10, 9, 11, 14, 13, 15]"
    by code_simp
  have v2: "visits InOrder (CompleteTree 15) = [1, 2, 3, 4, 5, 6, 7, 8, 9, 10, 11, 12, 13, 14, 15]"
    by code_simp
  have v3: "visits PostOrder (CompleteTree 15) = [1, 3, 2, 5, 7, 6, 4, 9, 11, 10, 13, 15, 14, 12, 8]"
    by code_simp
  have v4: "visits LevelOrder (CompleteTree 15) = [8, 4, 12, 2, 6, 10, 14, 1, 3, 5, 7, 9, 11, 13, 15]"
    by code_simp
  show ?thesis
    unfolding pre ino post level v1 v2 v3 v4 by simp
qed

text \<open>
  C8. \<open>Traverse\<close> with a traversal value that is none of \<open>PreOrder\<close>, \<open>InOrder\<close>,
  \<open>PostOrder\<close> and \<open>LevelOrder\<close> does nothing: the visitor is not applied (its state
  is as before) and the tree is unchanged.
\<close>

theorem Traverse_unrecognized:
  "traversal \<notin> {PreOrder, InOrder, PostOrder, LevelOrder} \<Longrightarrow>
     Traverse traversal visitor t s = (s, t) \<and> visits traversal t = []"
  by (simp add: Traverse_def visits_def)

theorem Traverse_unrecognized_witness:
  "(0 :: Traversal) \<notin> {PreOrder, InOrder, PostOrder, LevelOrder} \<and>
   Traverse 0 record_visit (CompleteTree 15) [] = ([], CompleteTree 15) \<and>
   visits 0 (CompleteTree 15) = [] \<and>
   (7 :: Traversal) \<notin> {PreOrder, InOrder, PostOrder, LevelOrder} \<and>
   Traverse 7 record_visit (CompleteTree 15) [] = ([], CompleteTree 15)"
proof -
  have h0: "(0 :: Traversal) \<notin> {PreOrder, InOrder, PostOrder, LevelOrder}"
    by (simp add: PreOrder_def InOrder_def PostOrder_def LevelOrder_def)
  have h7: "(7 :: Traversal) \<notin> {PreOrder, InOrder, PostOrder, LevelOrder}"
    by (simp add: PreOrder_def InOrder_def PostOrder_def LevelOrder_def)
  from h0 h7 Traverse_unrecognized[OF h0, of record_visit "CompleteTree 15" "[]"]
    Traverse_unrecognized[OF h7, of record_visit "CompleteTree 15" "[]"]
  show ?thesis by blast
qed

text \<open>
  C10. On every non-empty tree (so on every non-empty tree built by calls of
  \<open>Insert\<close>), \<open>Minimum\<close> is the first and \<open>Maximum\<close> the last value that
  \<open>Traverse\<close> with \<open>InOrder\<close> visits.
\<close>

theorem Minimum_Maximum_InOrder:
  "root t \<noteq> None \<Longrightarrow>
     visits InOrder t \<noteq> [] \<and>
     fst (Minimum t) = Some (hd (visits InOrder t)) \<and>
     fst (Maximum t) = Some (last (visits InOrder t))"
  by (auto simp: visits_InOrder Minimum_def Maximum_def inorder_Some_ne
        Minimum_loop_hd Maximum_loop_last)

theorem Minimum_Maximum_InOrder_witness:
  "root (built IntSmaller IntLarger [20, 10, 30]) \<noteq> None \<and>
   visits InOrder (built IntSmaller IntLarger [20, 10, 30]) = [10, 20, 30] \<and>
   fst (Minimum (built IntSmaller IntLarger [20, 10, 30])) = Some 10 \<and>
   fst (Maximum (built IntSmaller IntLarger [20, 10, 30])) = Some 30"
proof -
  have h: "root (built IntSmaller IntLarger [20, 10, 30]) \<noteq> None"
    by code_simp
  have v: "visits InOrder (built IntSmaller IntLarger [20, 10, 30]) = [10, 20, 30]"
    by code_simp
  from h v Minimum_Maximum_InOrder[OF h] show ?thesis by simp
qed

end
